theory Spec2Isabelle
  imports Main "HOL-Library.Sublist"
begin

section \<open>Python strings\<close>

text \<open>
  A Python \<open>str\<close> is a sequence of Unicode code points, so a string is modelled as the
  list of its code points. \<open>asc\<close> turns an ASCII literal into such a list; the two
  characters of the page template outside ASCII are written by their code points
  (8592 is the leftwards arrow, 169 the copyright sign). The line feed is code point 10.
\<close>

type_synonym ustr = "nat list"

definition asc :: "string \<Rightarrow> ustr" where
  "asc s = map of_char s"

text \<open>
  \<open>str.strip()\<close> without argument removes the characters for which \<open>str.isspace\<close>
  holds: tab to carriage return, the four separators 28 to 31, the space, NEL, the
  no-break space and the Unicode space separators.
\<close>

definition isspace :: "nat \<Rightarrow> bool" where
  "isspace c \<longleftrightarrow>
     (9 \<le> c \<and> c \<le> 13) \<or> (28 \<le> c \<and> c \<le> 32) \<or> c = 133 \<or> c = 160 \<or> c = 5760 \<or>
     (8192 \<le> c \<and> c \<le> 8202) \<or> c = 8232 \<or> c = 8233 \<or> c = 8239 \<or> c = 8287 \<or> c = 12288"

definition strip :: "ustr \<Rightarrow> ustr" where
  "strip s = rev (dropWhile isspace (rev (dropWhile isspace s)))"

text \<open>\<open>s.split('\n')\<close>: the pieces between line feeds; never the empty list.\<close>

fun split_nl :: "ustr \<Rightarrow> ustr list" where
  "split_nl [] = [[]]"
| "split_nl (c # cs) =
     (if c = 10 then [] # split_nl cs
      else case split_nl cs of
             l # ls \<Rightarrow> (c # l) # ls
           | [] \<Rightarrow> [[c]])"

text \<open>\<open>sep.join(xs)\<close>.\<close>

fun join :: "ustr \<Rightarrow> ustr list \<Rightarrow> ustr" where
  "join sep [] = []"
| "join sep [x] = x"
| "join sep (x # y # ys) = x @ sep @ join sep (y # ys)"

text \<open>
  \<open>s.replace(old, new)\<close>: every occurrence of \<open>old\<close>, found from the left without
  overlap, is replaced; an empty \<open>old\<close> matches before every character and at the end.
\<close>

function str_replace :: "ustr \<Rightarrow> ustr \<Rightarrow> ustr \<Rightarrow> ustr" where
  "str_replace old new [] = (if old = [] then new else [])"
| "str_replace old new (c # cs) =
     (if old = [] then new @ c # str_replace old new cs
      else if prefix old (c # cs) then new @ str_replace old new (drop (length old) (c # cs))
      else c # str_replace old new cs)"
  by pat_completeness auto
termination
  by (relation "measure (\<lambda>(old, new, s). length s)") auto

section \<open>The regular expressions of the converter\<close>

text \<open>
  The converter calls \<open>re.sub\<close> with seven patterns of three shapes. Each shape is a
  matcher: given whether the position is at the start of a line (what \<open>^\<close> tests under
  \<open>re.MULTILINE\<close>) and the text from the position on, it returns the text of group 1 and
  the number of characters the match consumes, or \<open>None\<close> when the pattern does not match
  at this position. The quantified parts follow the backtracking order of the engine.
\<close>

type_synonym matcher = "bool \<Rightarrow> ustr \<Rightarrow> (ustr \<times> nat) option"

text \<open>
  \<open>(.+)$\<close> under \<open>re.MULTILINE\<close>: the dot takes one character other than a line feed,
  greedily tries to take more, and falls back to stopping where \<open>$\<close> holds, that is at
  the end of the text or in front of a line feed. The result is the group and the rest.
\<close>

fun dot_plus_eol :: "ustr \<Rightarrow> (ustr \<times> ustr) option" where
  "dot_plus_eol [] = None"
| "dot_plus_eol (c # cs) =
     (if c = 10 then None
      else case dot_plus_eol cs of
             Some (g, rest) \<Rightarrow> Some (c # g, rest)
           | None \<Rightarrow> if cs = [] \<or> hd cs = 10 then Some ([c], cs) else None)"

text \<open>\<open>^marker(.+)$\<close> with \<open>re.MULTILINE\<close>, for the markers \<open># \<close>, \<open>## \<close>, \<open>### \<close> and \<open>- \<close>.\<close>

definition match_line :: "ustr \<Rightarrow> matcher" where
  "match_line marker bol s =
     (if bol \<and> prefix marker s then
        (case dot_plus_eol (drop (length marker) s) of
           Some (g, rest) \<Rightarrow> Some (g, length s - length rest)
         | None \<Rightarrow> None)
      else None)"

text \<open>
  \<open>(.+?)close\<close> without flags: the dot takes one character other than a line feed, then
  the shortest continuation is tried first, so the group ends in front of the nearest
  \<open>close\<close> that follows at least one character.
\<close>

fun dot_plus_lazy :: "ustr \<Rightarrow> ustr \<Rightarrow> (ustr \<times> ustr) option" where
  "dot_plus_lazy close [] = None"
| "dot_plus_lazy close (c # cs) =
     (if c = 10 then None
      else if prefix close cs then Some ([c], drop (length close) cs)
      else case dot_plus_lazy close cs of
             Some (g, rest) \<Rightarrow> Some (c # g, rest)
           | None \<Rightarrow> None)"

text \<open>\<open>delim(.+?)delim\<close>, for the delimiters \<open>**\<close> and \<open>*\<close>.\<close>

definition match_span :: "ustr \<Rightarrow> matcher" where
  "match_span delim bol s =
     (if prefix delim s then
        (case dot_plus_lazy delim (drop (length delim) s) of
           Some (g, rest) \<Rightarrow> Some (g, length s - length rest)
         | None \<Rightarrow> None)
      else None)"

text \<open>
  \<open>.*close\<close> under \<open>re.DOTALL\<close>: the dot takes any character, line feeds too, and the
  longest continuation is tried first, so the match ends with the last \<open>close\<close> of the
  text. The result is the text taken by \<open>.*\<close> and the rest behind \<open>close\<close>.
\<close>

fun dotall_star_then :: "ustr \<Rightarrow> ustr \<Rightarrow> (ustr \<times> ustr) option" where
  "dotall_star_then close [] = (if close = [] then Some ([], []) else None)"
| "dotall_star_then close (c # cs) =
     (case dotall_star_then close cs of
        Some (g, rest) \<Rightarrow> Some (c # g, rest)
      | None \<Rightarrow> if prefix close (c # cs) then Some ([], drop (length close) (c # cs)) else None)"

text \<open>\<open>(<li>.*</li>)\<close> with \<open>re.DOTALL\<close>; group 1 is the whole match.\<close>

definition match_li_run :: matcher where
  "match_li_run bol s =
     (if prefix (asc ''<li>'') s then
        (case dotall_star_then (asc ''</li>'') (drop 4 s) of
           Some (g, rest) \<Rightarrow> Some (asc ''<li>'' @ g @ asc ''</li>'', length s - length rest)
         | None \<Rightarrow> None)
      else None)"

text \<open>
  \<open>re.sub\<close>: the text is scanned from the left; where the pattern matches, the
  replacement is emitted and the scan goes on behind the match, elsewhere the character
  is copied. Every pattern of the converter starts with a literal character, so a match
  consumes at least one character; a matcher result of length 0 is treated as no match.
\<close>

function re_sub :: "matcher \<Rightarrow> (ustr \<Rightarrow> ustr) \<Rightarrow> bool \<Rightarrow> ustr \<Rightarrow> ustr" where
  "re_sub m repl bol [] = []"
| "re_sub m repl bol (c # cs) =
     (case m bol (c # cs) of
        Some (g, n) \<Rightarrow>
          if 0 < n then repl g @ re_sub m repl ((c # cs) ! (n - 1) = 10) (drop n (c # cs))
          else c # re_sub m repl (c = 10) cs
      | None \<Rightarrow> c # re_sub m repl (c = 10) cs)"
  by pat_completeness auto
termination
  by (relation "measure (\<lambda>(m, repl, bol, s). length s)") auto

text \<open>A replacement template \<open>pre\1post\<close>.\<close>

definition template :: "ustr \<Rightarrow> ustr \<Rightarrow> ustr \<Rightarrow> ustr" where
  "template pre post g = pre @ g @ post"

section \<open>The converter\<close>

definition page_head :: "ustr \<Rightarrow> ustr" where
  \<open>page_head title =
     asc ''<!DOCTYPE html>\<newline>'' @
     asc ''<html lang="en">\<newline>'' @
     asc ''<head>\<newline>'' @
     asc ''    <meta charset="UTF-8">\<newline>'' @
     asc ''    <meta name="viewport" content="width=device-width, initial-scale=1.0">\<newline>'' @
     asc ''    <title>'' @ title @ asc '' - Tarot Deck App</title>\<newline>'' @
     asc ''    <link rel="stylesheet" href="style.css">\<newline>'' @
     asc ''</head>\<newline>'' @
     asc ''<body>\<newline>'' @
     asc ''    <div class="container">\<newline>'' @
     asc ''        <a href="index.html" class="back-link">'' @ [8592] @
       asc '' Back to Legal Documents</a>\<newline>''\<close>

definition page_foot :: ustr where
  \<open>page_foot =
     asc ''\<newline>'' @
     asc ''        <footer>\<newline>'' @
     asc ''            <p>Tarot Deck App '' @ [169] @ asc '' 2026</p>\<newline>'' @
     asc ''        </footer>\<newline>'' @
     asc ''    </div>\<newline>'' @
     asc ''</body>\<newline>'' @
     asc ''</html>\<newline>''\<close>

definition convert_h1 :: "ustr \<Rightarrow> ustr" where
  "convert_h1 = re_sub (match_line (asc ''# '')) (template (asc ''<h1>'') (asc ''</h1>'')) True"

definition convert_h2 :: "ustr \<Rightarrow> ustr" where
  "convert_h2 = re_sub (match_line (asc ''## '')) (template (asc ''<h2>'') (asc ''</h2>'')) True"

definition convert_h3 :: "ustr \<Rightarrow> ustr" where
  "convert_h3 = re_sub (match_line (asc ''### '')) (template (asc ''<h3>'') (asc ''</h3>'')) True"

definition convert_bold :: "ustr \<Rightarrow> ustr" where
  "convert_bold =
     re_sub (match_span (asc ''**'')) (template (asc ''<strong>'') (asc ''</strong>'')) True"

definition convert_italic :: "ustr \<Rightarrow> ustr" where
  "convert_italic = re_sub (match_span (asc ''*'')) (template (asc ''<em>'') (asc ''</em>'')) True"

definition convert_li :: "ustr \<Rightarrow> ustr" where
  "convert_li = re_sub (match_line (asc ''- '')) (template (asc ''<li>'') (asc ''</li>'')) True"

definition wrap_ul :: "ustr \<Rightarrow> ustr" where
  "wrap_ul = re_sub match_li_run (template (asc ''<ul>'') (asc ''</ul>'')) True"

text \<open>
  The paragraph loop. Its state is the pair of \<open>paragraphs\<close> and \<open>current_para\<close>;
  \<open>flush\<close> is the block that appears three times in the source.
\<close>

definition para_tag :: "ustr list \<Rightarrow> ustr" where
  "para_tag current_para = asc ''<p>'' @ join (asc '' '') current_para @ asc ''</p>''"

definition flush :: "ustr list \<Rightarrow> ustr list \<Rightarrow> ustr list" where
  "flush paragraphs current_para =
     (if current_para \<noteq> [] then paragraphs @ [para_tag current_para] else paragraphs)"

fun para_step :: "ustr list \<times> ustr list \<Rightarrow> ustr \<Rightarrow> ustr list \<times> ustr list" where
  "para_step (paragraphs, current_para) line =
     (if strip line = [] then (flush paragraphs current_para, [])
      else if \<not> prefix (asc ''<'') (strip line) then (paragraphs, current_para @ [strip line])
      else (flush paragraphs current_para @ [line], []))"

definition convert_paragraphs :: "ustr list \<Rightarrow> ustr list" where
  "convert_paragraphs lines =
     (case foldl para_step ([], []) lines of
        (paragraphs, current_para) \<Rightarrow> flush paragraphs current_para)"

definition html_body :: "ustr \<Rightarrow> ustr" where
  "html_body md_content =
     join (asc ''\<newline>'')
       (convert_paragraphs
          (split_nl
             (wrap_ul (convert_li (convert_italic (convert_bold
                (convert_h3 (convert_h2 (convert_h1 md_content)))))))))"

definition markdown_to_html_simple :: "ustr \<Rightarrow> ustr \<Rightarrow> ustr" where
  "markdown_to_html_simple md_content title = page_head title @ html_body md_content @ page_foot"

section \<open>The driver\<close>

text \<open>
  \<open>main\<close> reads from the project root and writes into its \<open>docs\<close> directory. The
  state it works on is the part of the file system it touches and the console. An entry
  of a directory is either a text file with its decoded content as stored, or
  \<open>Blocked\<close>: it exists, but opening it raises (a directory, missing permission, or
  for a source, bytes that are not UTF-8). \<open>root_entries\<close> maps the names in the
  project root to their entries (a name outside the domain does not exist),
  \<open>docs_exists\<close> says whether the output directory is there, \<open>docs_entries\<close> maps the
  names in it to their entries, and \<open>console\<close> holds the printed lines in order. What
  is written is the string handed to \<open>write\<close>. An exception ends the run: the result is
  the error, and what the run had done up to there is lost with it.
\<close>

datatype error = TypeError | FileExistsError | ReadFault | WriteFault

datatype entry = TextFile ustr | Blocked

record fs_state =
  root_entries :: "ustr \<rightharpoonup> entry"
  docs_exists :: bool
  docs_entries :: "ustr \<rightharpoonup> entry"
  console :: "ustr list"

definition files_to_convert :: "(ustr \<times> ustr) list" where
  "files_to_convert =
     [(asc ''PRIVACY_POLICY.md'', asc ''Privacy Policy''),
      (asc ''TERMS_OF_SERVICE.md'', asc ''Terms of Service''),
      (asc ''LICENSE'', asc ''License''),
      (asc ''COPYRIGHT'', asc ''Copyright'')]"

text \<open>The output name: the chain of three \<open>str.replace\<close> calls of the loop body.\<close>

definition html_filename :: "ustr \<Rightarrow> ustr" where
  "html_filename filename =
     str_replace (asc ''COPYRIGHT'') (asc ''COPYRIGHT.html'')
       (str_replace (asc ''LICENSE'') (asc ''LICENSE.html'')
          (str_replace (asc ''.md'') (asc ''.html'') filename))"

text \<open>
  \<open>open(md_path, 'r', encoding='utf-8')\<close> reads in text mode with universal newlines:
  a carriage return followed by a line feed, and a carriage return alone, arrive as one
  line feed.
\<close>

fun universal_newlines :: "ustr \<Rightarrow> ustr" where
  "universal_newlines [] = []"
| "universal_newlines [c] = (if c = 13 then [10] else [c])"
| "universal_newlines (c # d # cs) =
     (if c = 13 \<and> d = 10 then 10 # universal_newlines cs
      else if c = 13 then 10 # universal_newlines (d # cs)
      else c # universal_newlines (d # cs))"

text \<open>
  The source takes \<open>Path\<close> from the package \<open>path\<close> (\<open>from path import Path\<close>), not
  from \<open>pathlib\<close>. The \<open>mkdir\<close> of that class is \<open>mkdir(self, mode=0o777)\<close> and hands
  the work to \<open>os.mkdir\<close>: a keyword other than \<open>mode\<close> is a \<open>TypeError\<close>, and an
  existing directory a \<open>FileExistsError\<close>. The first argument is the list of keywords
  of the call.
\<close>

definition path_mkdir :: "ustr list \<Rightarrow> fs_state \<Rightarrow> error + fs_state" where
  "path_mkdir keywords st =
     (if \<not> list_all (\<lambda>k. k = asc ''mode'') keywords then Inl TypeError
      else if docs_exists st then Inl FileExistsError
      else Inr (st\<lparr>docs_exists := True\<rparr>))"

text \<open>
  The body of the loop over the pairs: \<open>exists\<close>, then read, convert, write and
  report, or the warning.
\<close>

definition convert_file :: "fs_state \<Rightarrow> ustr \<times> ustr \<Rightarrow> error + fs_state" where
  "convert_file st p =
     (case p of (filename, title) \<Rightarrow>
        (case root_entries st filename of
           Some Blocked \<Rightarrow> Inl ReadFault
         | Some (TextFile stored) \<Rightarrow>
             if \<not> docs_exists st \<or> docs_entries st (html_filename filename) = Some Blocked
             then Inl WriteFault
             else Inr (st\<lparr>docs_entries := (docs_entries st)
                          (html_filename filename \<mapsto>
                             TextFile (markdown_to_html_simple (universal_newlines stored) title)),
                        console := console st @
                          [asc ''Converted '' @ filename @ asc '' to '' @ html_filename filename]\<rparr>)
         | None \<Rightarrow>
             Inr (st\<lparr>console := console st @
                          [asc ''Warning: '' @ filename @ asc '' not found'']\<rparr>)))"

text \<open>The loop: the first exception ends it.\<close>

fun convert_all :: "fs_state \<Rightarrow> (ustr \<times> ustr) list \<Rightarrow> error + fs_state" where
  "convert_all st [] = Inr st"
| "convert_all st (p # ps) =
     (case convert_file st p of
        Inl e \<Rightarrow> Inl e
      | Inr st' \<Rightarrow> convert_all st' ps)"

text \<open>\<open>main\<close>: \<open>docs_dir.mkdir(exist_ok=True)\<close>, then the loop.\<close>

definition main :: "fs_state \<Rightarrow> error + fs_state" where
  "main st =
     (case path_mkdir [asc ''exist_ok''] st of
        Inl e \<Rightarrow> Inl e
      | Inr st' \<Rightarrow> convert_all st' files_to_convert)"

text \<open>
  The output name as the spec words it: the \<open>.md\<close> suffix replaced by \<open>.html\<close>, or
  \<open>.html\<close> appended when there is no such suffix.
\<close>

definition spec_html_filename :: "ustr \<Rightarrow> ustr" where
  "spec_html_filename filename =
     (if suffix (asc ''.md'') filename
      then take (length filename - 3) filename @ asc ''.html''
      else filename @ asc ''.html'')"

section \<open>Reference descriptions used by the theorems\<close>

text \<open>
  What a line-anchored substitution does to one line: a line that starts with the marker
  and goes on behind it is replaced, any other line is kept.
\<close>

definition convert_line :: "ustr \<Rightarrow> (ustr \<Rightarrow> ustr) \<Rightarrow> ustr \<Rightarrow> ustr" where
  "convert_line marker repl l =
     (if prefix marker l \<and> length marker < length l then repl (drop (length marker) l) else l)"

abbreviation not_nl :: "nat \<Rightarrow> bool" where
  "not_nl \<equiv> (\<lambda>c. c \<noteq> 10)"

text \<open>
  The plain-text property of the spec: a maximal run of consecutive non-blank lines is
  one paragraph. \<open>line_runs\<close> cuts a list of lines into these runs, \<open>no_markdown\<close> is
  the condition the property is stated under, \<open>li_pair\<close> says that some \<open><li>\<close> has a
  \<open></li>\<close> behind it. \<open>spec_plain_body\<close> is the body as the property words it (the
  lines of a run joined by single spaces), \<open>plain_body\<close> the body with every line
  stripped first.
\<close>

abbreviation not_blank :: "ustr \<Rightarrow> bool" where
  "not_blank \<equiv> (\<lambda>l. strip l \<noteq> [])"

function line_runs :: "ustr list \<Rightarrow> ustr list list" where
  "line_runs [] = []"
| "line_runs (l # ls) =
     (if strip l = [] then line_runs ls
      else (l # takeWhile not_blank ls) # line_runs (dropWhile not_blank ls))"
  by pat_completeness auto
termination
  by (relation "measure length") (auto simp: le_imp_less_Suc length_dropWhile_le)

definition no_markdown :: "ustr \<Rightarrow> bool" where
  "no_markdown s \<longleftrightarrow>
     list_all (\<lambda>l. \<not> prefix (asc ''# '') l \<and> \<not> prefix (asc ''## '') l \<and>
                    \<not> prefix (asc ''### '') l \<and> \<not> prefix (asc ''- '') l \<and>
                    \<not> prefix (asc ''<'') (strip l)) (split_nl s) \<and>
     42 \<notin> set s"

fun li_pair :: "ustr \<Rightarrow> bool" where
  "li_pair [] = False"
| "li_pair (c # cs) =
     (prefix (asc ''<li>'') (c # cs) \<and> sublist (asc ''</li>'') (drop 4 (c # cs)) \<or> li_pair cs)"

definition spec_plain_body :: "ustr \<Rightarrow> ustr" where
  "spec_plain_body s =
     join [10] (map (\<lambda>run. asc ''<p>'' @ join (asc '' '') run @ asc ''</p>'')
                  (line_runs (split_nl s)))"

definition plain_body :: "ustr \<Rightarrow> ustr" where
  "plain_body s =
     join [10] (map (\<lambda>run. asc ''<p>'' @ join (asc '' '') (map strip run) @ asc ''</p>'')
                  (line_runs (split_nl s)))"

text \<open>
  A list of numbers is a Python \<open>str\<close> when every element is a code point, that is
  below \<open>0x110000\<close>. \<open>valid_state\<close> says so for the two lists of the paragraph loop.
\<close>

definition valid_str :: "ustr \<Rightarrow> bool" where
  "valid_str s \<longleftrightarrow> list_all (\<lambda>c. c < 1114112) s"

definition valid_state :: "ustr list \<times> ustr list \<Rightarrow> bool" where
  "valid_state st \<longleftrightarrow>
     list_all valid_str (fst st) \<and> list_all valid_str (snd st)"

text \<open>The warning the loop prints for an absent source.\<close>

definition warning_line :: "ustr \<Rightarrow> ustr" where
  "warning_line filename = asc ''Warning: '' @ filename @ asc '' not found''"

section \<open>Two pages computed\<close>

lemmas eval_defs =
  html_body_def convert_h1_def convert_h2_def convert_h3_def convert_bold_def
  convert_italic_def convert_li_def wrap_ul_def asc_def match_span_def match_line_def
  match_li_run_def template_def convert_paragraphs_def flush_def para_tag_def strip_def
  isspace_def

lemma body_bold_italic:
  "html_body (asc ''**bold** and *italic*'') = asc ''<strong>bold</strong> and <em>italic</em>''"
  by (simp add: eval_defs)

lemma body_two_items:
  "html_body (asc ''- a\<newline>- b'') = asc ''<ul><li>a</li>\<newline><li>b</li></ul>''"
  by (simp add: eval_defs)

text \<open>
  C1, as stated, fails: bold conversion makes the line start with \<open><strong>\<close>, so the
  paragraph loop takes it for an HTML line and emits it verbatim. In the page, no
  paragraph tag is opened anywhere up to the end of the converted line.
\<close>

theorem bold_italic_no_paragraph_cex:
  "markdown_to_html_simple (asc ''**bold** and *italic*'') (asc ''T'') =
     (page_head (asc ''T'') @ asc ''<strong>bold</strong> and <em>italic</em>'') @ page_foot \<and>
   \<not> sublist (asc ''<p>'') (page_head (asc ''T'') @ asc ''<strong>bold</strong> and <em>italic</em>'')"
proof
  show "markdown_to_html_simple (asc ''**bold** and *italic*'') (asc ''T'') =
     (page_head (asc ''T'') @ asc ''<strong>bold</strong> and <em>italic</em>'') @ page_foot"
    by (simp only: markdown_to_html_simple_def body_bold_italic append_assoc)
  show "\<not> sublist (asc ''<p>'') (page_head (asc ''T'') @ asc ''<strong>bold</strong> and <em>italic</em>'')"
    by (simp add: page_head_def asc_def sublist_Cons_right)
qed

text \<open>
  C1, amended: for the content \<open>**bold** and *italic*\<close> and the title \<open>T\<close> the page is
  the shell around the single line in which a strong-emphasis tag wraps \<open>bold\<close>, an
  emphasis tag wraps \<open>italic\<close> and the word \<open>and\<close> stands between them; the line is
  not enclosed in a paragraph tag.
\<close>

theorem bold_italic_line_not_in_paragraph:
  "markdown_to_html_simple (asc ''**bold** and *italic*'') (asc ''T'') =
     page_head (asc ''T'') @ asc ''<strong>bold</strong> and <em>italic</em>'' @ page_foot"
  by (simp only: markdown_to_html_simple_def body_bold_italic)

text \<open>
  C4: for the content of the two lines \<open>- a\<close> and \<open>- b\<close> the page holds the two
  list items, in this order, inside one unordered-list tag.
\<close>

theorem two_items_one_list:
  "markdown_to_html_simple (asc ''- a\<newline>- b'') (asc ''T'') =
     page_head (asc ''T'') @ asc ''<ul><li>a</li>\<newline><li>b</li></ul>'' @ page_foot"
  by (simp only: markdown_to_html_simple_def body_two_items)

section \<open>The shell\<close>

text \<open>
  C6: whatever the content and the title are, the page contains the footer text
  \<open>Tarot Deck App (c) 2026\<close> (with the copyright sign) and the back link to
  \<open>index.html\<close>.
\<close>

theorem shell_always_present:
  \<open>sublist (asc ''Tarot Deck App '' @ [169] @ asc '' 2026'') (markdown_to_html_simple md_content title) \<and>
   sublist (asc ''<a href="index.html" class="back-link">'' @ [8592] @ asc '' Back to Legal Documents</a>'')
     (markdown_to_html_simple md_content title)\<close>
proof
  have "page_foot = asc ''\<newline>        <footer>\<newline>            <p>'' @
      (asc ''Tarot Deck App '' @ [169] @ asc '' 2026'') @
      asc ''</p>\<newline>        </footer>\<newline>    </div>\<newline></body>\<newline></html>\<newline>''"
    by (simp add: page_foot_def asc_def)
  then obtain a b where "page_foot = a @ (asc ''Tarot Deck App '' @ [169] @ asc '' 2026'') @ b"
    by blast
  then have "markdown_to_html_simple md_content title =
      (page_head title @ html_body md_content @ a) @ (asc ''Tarot Deck App '' @ [169] @ asc '' 2026'') @ b"
    by (simp add: markdown_to_html_simple_def)
  then show "sublist (asc ''Tarot Deck App '' @ [169] @ asc '' 2026'') (markdown_to_html_simple md_content title)"
    unfolding sublist_def by blast
next
  let ?link = \<open>asc ''<a href="index.html" class="back-link">'' @ [8592] @ asc '' Back to Legal Documents</a>''\<close>
  have "\<exists>a. page_head title = a @ ?link @ asc ''\<newline>''"
    by (simp add: page_head_def asc_def)
  then obtain a where "page_head title = a @ ?link @ asc ''\<newline>''" by blast
  then have "markdown_to_html_simple md_content title =
      a @ ?link @ (asc ''\<newline>'' @ html_body md_content @ page_foot)"
    by (simp add: markdown_to_html_simple_def)
  then show "sublist ?link (markdown_to_html_simple md_content title)"
    unfolding sublist_def by blast
qed

section \<open>The paragraph loop\<close>

lemma convert_paragraphs_append_state:
  "foldl para_step (ps0 @ ps, cur) ls =
     (ps0 @ fst (foldl para_step (ps, cur) ls), snd (foldl para_step (ps, cur) ls))"
  by (induction ls arbitrary: ps cur) (simp_all add: flush_def)

lemma flush_append: "flush (ps0 @ ps) cur = ps0 @ flush ps cur"
  by (simp add: flush_def)

text \<open>
  C9: a line whose first character after leading whitespace is \<open><\<close> splits the
  paragraph loop in two: what was buffered before it is flushed (the paragraphs of the
  lines before are complete), the line itself follows unstripped as an element of its
  own, outside any paragraph tag, and the lines after it start from an empty buffer.
\<close>

theorem html_line_verbatim:
  assumes "prefix (asc ''<'') (strip line)"
  shows "convert_paragraphs (before @ line # after) =
           convert_paragraphs before @ line # convert_paragraphs after"
proof -
  obtain ps cur where st: "foldl para_step ([], []) before = (ps, cur)"
    by (cases "foldl para_step ([], []) before")
  obtain ps2 cur2 where st2: "foldl para_step ([], []) after = (ps2, cur2)"
    by (cases "foldl para_step ([], []) after")
  from assms have ne: "strip line \<noteq> []" by (auto simp: asc_def)
  have step: "para_step (ps, cur) line = ((flush ps cur @ [line]) @ [], [])"
    using assms ne by simp
  have "foldl para_step ([], []) (before @ line # after) =
          foldl para_step ((flush ps cur @ [line]) @ [], []) after"
    by (simp only: foldl_append foldl_Cons st step)
  also have "\<dots> = ((flush ps cur @ [line]) @ ps2, cur2)"
    by (simp only: convert_paragraphs_append_state [of "flush ps cur @ [line]" "[]"] st2 fst_conv snd_conv)
  finally have L: "convert_paragraphs (before @ line # after) =
      flush ((flush ps cur @ [line]) @ ps2) cur2"
    by (simp add: convert_paragraphs_def)
  have R: "convert_paragraphs before @ line # convert_paragraphs after =
      flush ps cur @ line # flush ps2 cur2"
    by (simp add: convert_paragraphs_def st st2)
  have "flush ((flush ps cur @ [line]) @ ps2) cur2 = flush ps cur @ line # flush ps2 cur2"
    by (simp add: flush_def)
  with L R show ?thesis by simp
qed

theorem html_line_verbatim_witness:
  "prefix (asc ''<'') (strip (asc ''  <b>x '')) \<and>
   convert_paragraphs ([asc '' a''] @ asc ''  <b>x '' # [asc ''c'']) =
     [asc ''<p>a</p>'', asc ''  <b>x '', asc ''<p>c</p>'']"
proof -
  have h: "prefix (asc ''<'') (strip (asc ''  <b>x ''))"
    by (simp add: asc_def strip_def isspace_def)
  have a: "convert_paragraphs [asc '' a''] = [asc ''<p>a</p>'']"
    by (simp add: asc_def convert_paragraphs_def flush_def para_tag_def strip_def isspace_def)
  have b: "convert_paragraphs [asc ''c''] = [asc ''<p>c</p>'']"
    by (simp add: asc_def convert_paragraphs_def flush_def para_tag_def strip_def isspace_def)
  show ?thesis using h html_line_verbatim [OF h, of "[asc '' a'']" "[asc ''c'']"]
    by (simp only: a b append_Cons append_Nil simp_thms)
qed

section \<open>Output file names\<close>

lemma html_filename_values:
  "html_filename (asc ''PRIVACY_POLICY.md'') = asc ''PRIVACY_POLICY.html''"
  "html_filename (asc ''TERMS_OF_SERVICE.md'') = asc ''TERMS_OF_SERVICE.html''"
  "html_filename (asc ''LICENSE'') = asc ''LICENSE.html''"
  "html_filename (asc ''COPYRIGHT'') = asc ''COPYRIGHT.html''"
  by (simp_all add: html_filename_def asc_def)

text \<open>
  C8: for the four source pairs the computed output names are \<open>PRIVACY_POLICY.html\<close>,
  \<open>TERMS_OF_SERVICE.html\<close>, \<open>LICENSE.html\<close> and \<open>COPYRIGHT.html\<close>, which is the
  \<open>.md\<close> suffix replaced by \<open>.html\<close> where there is one and \<open>.html\<close> appended
  otherwise.
\<close>

theorem output_filenames:
  "map (html_filename \<circ> fst) files_to_convert =
     [asc ''PRIVACY_POLICY.html'', asc ''TERMS_OF_SERVICE.html'', asc ''LICENSE.html'',
      asc ''COPYRIGHT.html''] \<and>
   map (html_filename \<circ> fst) files_to_convert = map (spec_html_filename \<circ> fst) files_to_convert"
  by (simp add: files_to_convert_def html_filename_values) (simp add: spec_html_filename_def asc_def suffix_def)

section \<open>The driver run\<close>

lemma mkdir_rejects_exist_ok: "path_mkdir [asc ''exist_ok''] st = Inl TypeError"
  by (simp add: path_mkdir_def asc_def)

text \<open>
  Behind the \<open>mkdir\<close> the loop is as C7 describes it: with no source present it prints
  one warning per pair, in order, and writes nothing; an absent source leaves the output
  directory as it was; a source that cannot be opened ends the loop.
\<close>

lemma convert_file_absent:
  "root_entries st (fst p) = None \<Longrightarrow>
   convert_file st p = Inr (st\<lparr>console := console st @ [warning_line (fst p)]\<rparr>)"
  by (cases p) (simp add: convert_file_def warning_line_def)

lemma convert_all_none_present:
  "list_all (\<lambda>p. root_entries st (fst p) = None) ps \<Longrightarrow>
   convert_all st ps = Inr (st\<lparr>console := console st @ map (warning_line \<circ> fst) ps\<rparr>)"
proof (induction ps arbitrary: st)
  case Nil
  show ?case by simp
next
  case (Cons p ps)
  from Cons.prems have p: "root_entries st (fst p) = None"
    and ps: "list_all (\<lambda>q. root_entries (st\<lparr>console := console st @ [warning_line (fst p)]\<rparr>)
                (fst q) = None) ps"
    by simp_all
  show ?case by (simp add: convert_file_absent [OF p] Cons.IH [OF ps])
qed

lemma convert_all_blocked_source:
  "root_entries st (fst p) = Some Blocked \<Longrightarrow> convert_all st (p # ps) = Inl ReadFault"
  by (cases p) (simp add: convert_file_def)

lemma body_license:
  "html_body (asc ''# Grant\<newline>You may use this software.'') =
     asc ''<h1>Grant</h1>\<newline><p>You may use this software.</p>''"
  by (simp add: eval_defs)

lemma convert_file_license:
  "convert_file
     \<lparr>root_entries = [asc ''LICENSE'' \<mapsto> TextFile (asc ''# Grant\<newline>You may use this software.'')],
      docs_exists = True, docs_entries = Map.empty, console = []\<rparr>
     (asc ''LICENSE'', asc ''License'') =
   Inr \<lparr>root_entries = [asc ''LICENSE'' \<mapsto> TextFile (asc ''# Grant\<newline>You may use this software.'')],
        docs_exists = True,
        docs_entries = [asc ''LICENSE.html'' \<mapsto>
          TextFile (page_head (asc ''License'') @
                    asc ''<h1>Grant</h1>\<newline><p>You may use this software.</p>'' @ page_foot)],
        console = [asc ''Converted LICENSE to LICENSE.html'']\<rparr>"
proof -
  have n: "universal_newlines (asc ''# Grant\<newline>You may use this software.'') =
      asc ''# Grant\<newline>You may use this software.''"
    by (simp add: asc_def)
  have l: "asc ''Converted '' @ asc ''LICENSE'' @ asc '' to '' @ asc ''LICENSE.html'' =
      asc ''Converted LICENSE to LICENSE.html''"
    by (simp add: asc_def)
  show ?thesis
    by (simp add: convert_file_def html_filename_values n l markdown_to_html_simple_def
        body_license)
qed

text \<open>
  C7 fails on the code: the run does not complete. \<open>main\<close> calls \<open>mkdir\<close> with the
  keyword \<open>exist_ok\<close> on a path of the package \<open>path\<close>, whose \<open>mkdir\<close> has no such
  parameter. The call raises \<open>TypeError\<close> before the loop is entered, whatever the
  source directory holds: no warning is printed and no file is written.
\<close>

theorem main_raises_type_error: "main st = Inl TypeError"
  by (simp add: main_def mkdir_rejects_exist_ok)

section \<open>The list wrapping\<close>

lemma dotall_none: "dotall_star_then close t = None \<longleftrightarrow> \<not> sublist close t"
  by (induction t) (auto simp: sublist_Cons_right split: option.splits)

lemma dotall_some:
  "dotall_star_then close t = Some (g, rest) \<Longrightarrow>
     t = g @ close @ rest \<and> (close \<noteq> [] \<longrightarrow> \<not> sublist close (tl close @ rest))"
proof (induction t arbitrary: g rest)
  case Nil
  then show ?case by (auto split: if_splits)
next
  case (Cons c cs)
  show ?case
  proof (cases "dotall_star_then close cs")
    case None
    with Cons.prems have p: "prefix close (c # cs)" and g: "g = []"
      and r: "rest = drop (length close) (c # cs)" by (auto split: if_splits)
    from p obtain zs where zs: "c # cs = close @ zs" by (auto simp: prefix_def)
    with r have r': "rest = zs" by simp
    from None have ns: "\<not> sublist close cs" by (simp add: dotall_none)
    have "close \<noteq> [] \<Longrightarrow> cs = tl close @ rest"
      using zs r' by (cases close) auto
    with ns g zs r' show ?thesis by auto
  next
    case (Some a)
    obtain g' rest' where a: "a = (g', rest')" by (cases a)
    with Some Cons.prems have "g = c # g'" "rest = rest'" by auto
    with Cons.IH [of g' rest'] Some a show ?thesis by auto
  qed
qed

lemma re_sub_no_match:
  "(\<And>b t. suffix t s \<Longrightarrow> m b t = None) \<Longrightarrow> re_sub m repl bol s = s"
proof (induction s arbitrary: bol)
  case Nil
  show ?case by simp
next
  case (Cons c cs)
  have "m bol (c # cs) = None" by (rule Cons.prems) simp
  moreover have "re_sub m repl (c = 10) cs = cs"
    by (rule Cons.IH) (rule Cons.prems, simp add: suffix_Cons)
  ultimately show ?case by simp
qed

lemma match_li_run_needs_close:
  "\<not> sublist (asc ''</li>'') t \<Longrightarrow> match_li_run b t = None"
proof -
  assume ns: "\<not> sublist (asc ''</li>'') t"
  have "sublist (drop 4 t) t" by (metis append_take_drop_id sublist_append_leftI)
  with ns have "\<not> sublist (asc ''</li>'') (drop 4 t)" using sublist_order.order_trans by blast
  then have "dotall_star_then (asc ''</li>'') (drop 4 t) = None" by (simp add: dotall_none)
  then show ?thesis by (simp add: match_li_run_def)
qed

lemma wrap_ul_no_close:
  assumes "\<not> sublist (asc ''</li>'') s"
  shows "re_sub match_li_run repl bol s = s"
proof (rule re_sub_no_match)
  fix b t assume "suffix t s"
  then have "sublist t s" by (rule suffix_imp_sublist)
  with assms have "\<not> sublist (asc ''</li>'') t" using sublist_order.order_trans by blast
  then show "match_li_run b t = None" by (rule match_li_run_needs_close)
qed

lemma li_literals:
  "asc ''<li>'' = asc ''<li'' @ asc ''>''" "tl (asc ''</li>'') = asc ''/li>''"
  "length (asc ''<li>'') = 4" "asc ''</li>'' \<noteq> []"
  "\<not> sublist (asc ''<li>'') (asc ''<li'')"
  by (simp_all add: asc_def sublist_Cons_right)

lemma wrap_ul_span:
  assumes "s = a @ asc ''<li>'' @ b @ asc ''</li>'' @ c"
  shows "\<exists>pre mid post.
     s = pre @ asc ''<li>'' @ mid @ asc ''</li>'' @ post \<and>
     \<not> sublist (asc ''<li>'') (pre @ asc ''<li'') \<and>
     \<not> sublist (asc ''</li>'') (asc ''/li>'' @ post) \<and>
     re_sub match_li_run (template (asc ''<ul>'') (asc ''</ul>'')) bol s =
       pre @ asc ''<ul>'' @ asc ''<li>'' @ mid @ asc ''</li>'' @ asc ''</ul>'' @ post"
  using assms
proof (induction s arbitrary: a bol)
  case Nil
  then show ?case by (simp add: asc_def)
next
  case (Cons x xs)
  let ?LI = "asc ''<li>''" and ?CLI = "asc ''</li>''"
  let ?r = "template (asc ''<ul>'') (asc ''</ul>'')"
  show ?case
  proof (cases "prefix ?LI (x # xs)")
    case True
    then obtain t where t: "x # xs = ?LI @ t" by (auto simp: prefix_def)
    then have dt: "drop 4 (x # xs) = t" by (simp add: li_literals(3))
    have len4: "4 \<le> length (a @ ?LI @ b)" by (simp add: li_literals(3))
    have "drop 4 ((a @ ?LI @ b) @ ?CLI @ c) = drop 4 (a @ ?LI @ b) @ ?CLI @ c"
      by (subst drop_append) (simp add: len4 del: length_append)
    with Cons.prems dt have "t = drop 4 (a @ ?LI @ b) @ ?CLI @ c" by simp
    then have "sublist ?CLI t" by (simp only: sublist_appendI)
    then obtain g rest where d: "dotall_star_then ?CLI t = Some (g, rest)"
      using dotall_none [of ?CLI t] by (cases "dotall_star_then ?CLI t") auto
    from dotall_some [OF d] li_literals(4)
    have tg: "t = g @ ?CLI @ rest" and last: "\<not> sublist ?CLI (tl ?CLI @ rest)" by auto
    have nrest: "\<not> sublist ?CLI rest"
      using last sublist_order.order_trans sublist_append_leftI by blast
    have len: "length (x # xs) - length rest = length (?LI @ g @ ?CLI)"
      using t tg by simp
    have m: "match_li_run bol (x # xs) = Some (?LI @ g @ ?CLI, length (?LI @ g @ ?CLI))"
      using True d dt len by (simp add: match_li_run_def)
    have pos: "0 < length (?LI @ g @ ?CLI)" by (simp add: li_literals(3))
    have dr: "drop (length (?LI @ g @ ?CLI)) (x # xs) = rest"
      by (simp add: t tg)
    have "re_sub match_li_run ?r bol (x # xs) =
            ?r (?LI @ g @ ?CLI) @ re_sub match_li_run ?r
              ((x # xs) ! (length (?LI @ g @ ?CLI) - 1) = 10) rest"
      using m pos dr by (simp del: length_append)
    also have "\<dots> = ?r (?LI @ g @ ?CLI) @ rest"
      by (simp only: wrap_ul_no_close [OF nrest])
    finally have res: "re_sub match_li_run ?r bol (x # xs) =
        [] @ asc ''<ul>'' @ ?LI @ g @ ?CLI @ asc ''</ul>'' @ rest"
      by (simp add: template_def)
    have "x # xs = [] @ ?LI @ g @ ?CLI @ rest" using t tg by simp
    moreover have "\<not> sublist ?LI ([] @ asc ''<li'')" using li_literals(5) by simp
    moreover have "\<not> sublist ?CLI (asc ''/li>'' @ rest)" using last li_literals(2) by simp
    ultimately show ?thesis using res by blast
  next
    case False
    then have "a \<noteq> []" using Cons.prems by auto
    then obtain a' where a: "a = x # a'" using Cons.prems by (cases a) auto
    with Cons.prems have xs: "xs = a' @ ?LI @ b @ ?CLI @ c" by simp
    from Cons.IH [OF xs, of "x = 10"] obtain pre mid post where
      e: "xs = pre @ ?LI @ mid @ ?CLI @ post" and
      f: "\<not> sublist ?LI (pre @ asc ''<li'')" and
      l: "\<not> sublist ?CLI (asc ''/li>'' @ post)" and
      r: "re_sub match_li_run ?r (x = 10) xs =
            pre @ asc ''<ul>'' @ ?LI @ mid @ ?CLI @ asc ''</ul>'' @ post"
      by blast
    have m: "match_li_run bol (x # xs) = None" using False by (simp add: match_li_run_def)
    have res: "re_sub match_li_run ?r bol (x # xs) =
        (x # pre) @ asc ''<ul>'' @ ?LI @ mid @ ?CLI @ asc ''</ul>'' @ post"
      using m r by simp
    have "prefix ((x # pre) @ asc ''<li'') (x # xs)"
      using e li_literals(1) by (simp add: prefix_def)
    with False have "\<not> prefix ?LI ((x # pre) @ asc ''<li'')"
      using prefix_order.trans by blast
    with f have f': "\<not> sublist ?LI ((x # pre) @ asc ''<li'')"
      by (simp add: sublist_Cons_right)
    have "x # xs = (x # pre) @ ?LI @ mid @ ?CLI @ post" using e by simp
    with f' l res show ?thesis by blast
  qed
qed

lemma dotall_last:
  assumes "close \<noteq> []" "\<not> sublist close (tl close @ post)"
  shows "dotall_star_then close (mid @ close @ post) = Some (mid, post)"
proof (induction mid)
  case Nil
  obtain c cl where cl: "close = c # cl" using assms(1) by (cases close) auto
  have "dotall_star_then close (cl @ post) = None"
    using assms(2) by (simp add: dotall_none cl)
  then show ?case by (simp add: cl)
next
  case (Cons x mid)
  then show ?case by simp
qed

lemma wrap_ul_determined:
  assumes "\<not> sublist (asc ''<li>'') (pre @ asc ''<li'')"
    and "\<not> sublist (asc ''</li>'') (asc ''/li>'' @ post)"
  shows "re_sub match_li_run (template (asc ''<ul>'') (asc ''</ul>'')) bol
           (pre @ asc ''<li>'' @ mid @ asc ''</li>'' @ post) =
         pre @ asc ''<ul>'' @ asc ''<li>'' @ mid @ asc ''</li>'' @ asc ''</ul>'' @ post"
  using assms(1)
proof (induction pre arbitrary: bol)
  case Nil
  let ?LI = "asc ''<li>''" and ?CLI = "asc ''</li>''"
  let ?r = "template (asc ''<ul>'') (asc ''</ul>'')"
  define s where "s = ?LI @ mid @ ?CLI @ post"
  obtain x xs where xs: "s = x # xs" by (cases s) (simp_all add: s_def asc_def)
  have d4: "drop 4 s = mid @ ?CLI @ post" by (simp add: s_def li_literals(3))
  have d: "dotall_star_then ?CLI (mid @ ?CLI @ post) = Some (mid, post)"
    using assms(2) by (intro dotall_last) (simp_all add: li_literals)
  have len: "length s - length post = length (?LI @ mid @ ?CLI)" by (simp add: s_def)
  have m: "match_li_run bol s = Some (?LI @ mid @ ?CLI, length (?LI @ mid @ ?CLI))"
    by (simp add: match_li_run_def d4 d len) (simp add: s_def)
  have pos: "0 < length (?LI @ mid @ ?CLI)" by (simp add: li_literals(3))
  have dr: "drop (length (?LI @ mid @ ?CLI)) s = post" by (simp add: s_def)
  have np: "\<not> sublist ?CLI post"
    using assms(2) sublist_order.order_trans sublist_append_leftI by blast
  have "re_sub match_li_run ?r bol (x # xs) =
          ?r (?LI @ mid @ ?CLI) @ re_sub match_li_run ?r
            ((x # xs) ! (length (?LI @ mid @ ?CLI) - 1) = 10) post"
    using m pos dr unfolding xs by (simp del: length_append)
  also have "\<dots> = ?r (?LI @ mid @ ?CLI) @ post"
    by (simp only: wrap_ul_no_close [OF np])
  finally have fin: "re_sub match_li_run ?r bol (x # xs) = ?r (?LI @ mid @ ?CLI) @ post" .
  have e: "?r (?LI @ mid @ ?CLI) @ post =
      asc ''<ul>'' @ ?LI @ mid @ ?CLI @ asc ''</ul>'' @ post"
    by (simp add: template_def)
  show ?case unfolding append_Nil s_def [symmetric]
    using fin [folded xs] e by (rule trans)
next
  case (Cons x pre)
  let ?LI = "asc ''<li>''" and ?CLI = "asc ''</li>''"
  let ?rest = "pre @ ?LI @ mid @ ?CLI @ post"
  have np: "\<not> prefix ?LI (x # pre @ asc ''<li'')" and ns: "\<not> sublist ?LI (pre @ asc ''<li'')"
    using Cons.prems by (simp_all add: sublist_Cons_right)
  have "\<not> prefix ?LI (x # ?rest)"
  proof
    assume p: "prefix ?LI (x # ?rest)"
    have q: "prefix (x # pre @ asc ''<li'') (x # ?rest)" by (simp add: li_literals(1))
    have "length ?LI \<le> length (x # pre @ asc ''<li'')" by (simp add: asc_def)
    with p q have "prefix ?LI (x # pre @ asc ''<li'')" by (rule prefix_length_prefix)
    with np show False by contradiction
  qed
  then have m: "match_li_run bol (x # ?rest) = None" by (simp add: match_li_run_def)
  show ?case using m Cons.IH [OF ns, of "x = 10"] by simp
qed

text \<open>
  C2: when the text holds a \<open><li>\<close> with a \<open></li>\<close> somewhere behind it, the text
  splits at the first \<open><li>\<close> and the last \<open></li>\<close> (no \<open><li>\<close> starts before the
  one chosen, no \<open></li>\<close> starts behind the one chosen), and the list-wrapping step puts
  exactly that span, with everything that lies in it, line feeds and other content
  included, into one unordered-list tag and leaves the text before and behind as it is.
\<close>

theorem wrap_ul_first_to_last:
  assumes "s = a @ asc ''<li>'' @ b @ asc ''</li>'' @ c"
  shows "(\<exists>pre mid post.
            s = pre @ asc ''<li>'' @ mid @ asc ''</li>'' @ post \<and>
            \<not> sublist (asc ''<li>'') (pre @ asc ''<li'') \<and>
            \<not> sublist (asc ''</li>'') (asc ''/li>'' @ post)) \<and>
         (\<forall>pre mid post.
            s = pre @ asc ''<li>'' @ mid @ asc ''</li>'' @ post \<and>
            \<not> sublist (asc ''<li>'') (pre @ asc ''<li'') \<and>
            \<not> sublist (asc ''</li>'') (asc ''/li>'' @ post) \<longrightarrow>
            wrap_ul s =
              pre @ asc ''<ul>'' @ asc ''<li>'' @ mid @ asc ''</li>'' @ asc ''</ul>'' @ post)"
proof
  from wrap_ul_span [OF assms, of True]
  show "\<exists>pre mid post.
            s = pre @ asc ''<li>'' @ mid @ asc ''</li>'' @ post \<and>
            \<not> sublist (asc ''<li>'') (pre @ asc ''<li'') \<and>
            \<not> sublist (asc ''</li>'') (asc ''/li>'' @ post)"
    by blast
  show "\<forall>pre mid post.
            s = pre @ asc ''<li>'' @ mid @ asc ''</li>'' @ post \<and>
            \<not> sublist (asc ''<li>'') (pre @ asc ''<li'') \<and>
            \<not> sublist (asc ''</li>'') (asc ''/li>'' @ post) \<longrightarrow>
            wrap_ul s =
              pre @ asc ''<ul>'' @ asc ''<li>'' @ mid @ asc ''</li>'' @ asc ''</ul>'' @ post"
    by (auto simp: wrap_ul_def intro: wrap_ul_determined)
qed

theorem wrap_ul_first_to_last_witness:
  "asc ''<li>a</li>\<newline>\<newline>x\<newline>\<newline><li>b</li>'' =
     [] @ asc ''<li>'' @ asc ''a'' @ asc ''</li>'' @ asc ''\<newline>\<newline>x\<newline>\<newline><li>b</li>'' \<and>
   wrap_ul (asc ''<li>a</li>\<newline>\<newline>x\<newline>\<newline><li>b</li>'') =
     asc ''<ul><li>a</li>\<newline>\<newline>x\<newline>\<newline><li>b</li></ul>''"
proof -
  let ?s = "asc ''<li>a</li>\<newline>\<newline>x\<newline>\<newline><li>b</li>''"
  let ?mid = "asc ''a</li>\<newline>\<newline>x\<newline>\<newline><li>b''"
  have h: "?s = [] @ asc ''<li>'' @ asc ''a'' @ asc ''</li>'' @
      asc ''\<newline>\<newline>x\<newline>\<newline><li>b</li>''"
    by (simp add: asc_def)
  have d: "?s = [] @ asc ''<li>'' @ ?mid @ asc ''</li>'' @ []" by (simp add: asc_def)
  have f: "\<not> sublist (asc ''<li>'') ([] @ asc ''<li'')"
    by (simp add: asc_def sublist_Cons_right)
  have l: "\<not> sublist (asc ''</li>'') (asc ''/li>'' @ [])"
    by (simp add: asc_def sublist_Cons_right)
  from wrap_ul_first_to_last [OF h] d f l
  have "wrap_ul ?s = [] @ asc ''<ul>'' @ asc ''<li>'' @ ?mid @ asc ''</li>'' @ asc ''</ul>'' @ []"
    by blast
  then have "wrap_ul ?s = asc ''<ul><li>a</li>\<newline>\<newline>x\<newline>\<newline><li>b</li></ul>''"
    by (simp add: asc_def)
  with h show ?thesis by blast
qed

section \<open>The line-anchored substitutions\<close>

lemma split_nl_ne [simp]: "split_nl s \<noteq> []"
  by (induction s) (auto split: list.splits)

lemma split_nl_hd: "hd (split_nl s) = takeWhile not_nl s"
  by (induction s) (auto split: list.splits)

lemma split_nl_tl:
  "tl (split_nl s) = (case dropWhile not_nl s of [] \<Rightarrow> [] | x # r \<Rightarrow> split_nl r)"
proof (induction s)
  case Nil
  show ?case by simp
next
  case (Cons c cs)
  obtain l ls where e: "split_nl cs = l # ls" by (cases "split_nl cs") auto
  with Cons show ?case by (cases "c = 10") simp_all
qed

lemma split_nl_unfold:
  "split_nl s = takeWhile not_nl s # (case dropWhile not_nl s of [] \<Rightarrow> [] | x # r \<Rightarrow> split_nl r)"
  using split_nl_hd [of s] split_nl_tl [of s] split_nl_ne [of s]
  by (cases "split_nl s") auto

lemma join_Cons: "join sep (x # ys) = x @ (if ys = [] then [] else sep @ join sep ys)"
  by (cases ys) simp_all

lemma dot_plus_eol_eq:
  "dot_plus_eol t =
     (if t = [] \<or> hd t = 10 then None else Some (takeWhile not_nl t, dropWhile not_nl t))"
proof (induction t)
  case Nil
  show ?case by simp
next
  case (Cons c cs)
  show ?case
  proof (cases "cs = [] \<or> hd cs = 10")
    case True
    then have "takeWhile not_nl cs = []" "dropWhile not_nl cs = cs" by (cases cs; auto)+
    with Cons True show ?thesis by auto
  next
    case False
    with Cons show ?thesis by auto
  qed
qed

lemma match_line_eq:
  assumes "marker \<noteq> []" "10 \<notin> set marker"
  shows "match_line marker bol s =
     (if bol \<and> prefix marker (takeWhile not_nl s) \<and> length marker < length (takeWhile not_nl s)
      then Some (drop (length marker) (takeWhile not_nl s), length (takeWhile not_nl s))
      else None)"
proof (cases "bol \<and> prefix marker s")
  case False
  have "prefix marker (takeWhile not_nl s) \<Longrightarrow> prefix marker s"
    using takeWhile_is_prefix prefix_order.trans by blast
  with False show ?thesis by (auto simp: match_line_def)
next
  case True
  then obtain t where s: "s = marker @ t" by (auto simp: prefix_def)
  have all: "\<forall>x \<in> set marker. not_nl x" using assms(2) by auto
  have tw: "takeWhile not_nl (marker @ t) = marker @ takeWhile not_nl t"
    using all by (simp add: takeWhile_append2)
  have e: "takeWhile not_nl t = [] \<longleftrightarrow> t = [] \<or> hd t = 10" by (cases t) auto
  have len: "length s - length (dropWhile not_nl t) = length (marker @ takeWhile not_nl t)"
  proof -
    have "length (takeWhile not_nl t @ dropWhile not_nl t) = length t" by simp
    then have "length t = length (takeWhile not_nl t) + length (dropWhile not_nl t)"
      by (simp only: length_append)
    then show ?thesis by (simp add: s)
  qed
  show ?thesis
  proof (cases "t = [] \<or> hd t = 10")
    case True
    with e have "takeWhile not_nl t = []" by simp
    with True \<open>bol \<and> prefix marker s\<close> show ?thesis
      by (simp add: match_line_def dot_plus_eol_eq s tw)
  next
    case False
    with e have ne: "takeWhile not_nl t \<noteq> []" by simp
    have "match_line marker bol s = Some (takeWhile not_nl t, length s - length (dropWhile not_nl t))"
      using False \<open>bol \<and> prefix marker s\<close> by (simp add: match_line_def dot_plus_eol_eq s)
    with ne len \<open>bol \<and> prefix marker s\<close> show ?thesis by (simp add: s tw)
  qed
qed

lemma re_sub_not_bol:
  "re_sub (match_line marker) repl False t =
     (case t of [] \<Rightarrow> [] | x # r \<Rightarrow> x # re_sub (match_line marker) repl (x = 10) r)"
  by (cases t) (simp_all add: match_line_def)

lemma dropWhile_not_nl_cases:
  "dropWhile not_nl s = [] \<or> (\<exists>r. dropWhile not_nl s = 10 # r)"
proof (cases "dropWhile not_nl s")
  case Nil
  then show ?thesis by simp
next
  case (Cons x r)
  have "\<not> not_nl (hd (dropWhile not_nl s))" by (rule hd_dropWhile) (simp add: Cons)
  then show ?thesis by (simp add: Cons)
qed

lemma re_sub_line_step:
  assumes "marker \<noteq> []" "10 \<notin> set marker"
  shows "re_sub (match_line marker) repl bol s =
     (if bol then convert_line marker repl (takeWhile not_nl s) else takeWhile not_nl s) @
     (case dropWhile not_nl s of [] \<Rightarrow> []
      | x # r \<Rightarrow> 10 # re_sub (match_line marker) repl True r)"
proof (induction s arbitrary: bol)
  case Nil
  show ?case using assms by (simp add: convert_line_def)
next
  case (Cons c cs)
  let ?m = "match_line marker"
  define s where "s = c # cs"
  define fl where "fl = takeWhile not_nl s"
  define dw where "dw = dropWhile not_nl s"
  have fd: "s = fl @ dw" by (simp add: fl_def dw_def)
  have fl_nn: "x \<in> set fl \<Longrightarrow> x \<noteq> 10" for x
    unfolding fl_def by (drule set_takeWhileD) simp
  have dwc: "dw = [] \<or> (\<exists>r. dw = 10 # r)"
    unfolding dw_def by (rule dropWhile_not_nl_cases)
  have meq: "?m bol s =
      (if bol \<and> prefix marker fl \<and> length marker < length fl
       then Some (drop (length marker) fl, length fl) else None)"
    unfolding fl_def by (rule match_line_eq [OF assms])
  have goal: "re_sub ?m repl bol s =
      (if bol then convert_line marker repl fl else fl) @
      (case dw of [] \<Rightarrow> [] | x # r \<Rightarrow> 10 # re_sub ?m repl True r)"
  proof (cases "bol \<and> prefix marker fl \<and> length marker < length fl")
    case True
    then have "length marker < length fl" by blast
    then have pos: "0 < length fl" by linarith
    have m: "?m bol (c # cs) = Some (drop (length marker) fl, length fl)"
      using meq True unfolding s_def by simp
    have unf: "re_sub ?m repl bol (c # cs) =
        repl (drop (length marker) fl) @
        re_sub ?m repl ((c # cs) ! (length fl - 1) = 10) (drop (length fl) (c # cs))"
      using pos by (simp add: m)
    have dr: "drop (length fl) s = dw" by (simp add: fd)
    have "s ! (length fl - 1) = fl ! (length fl - 1)"
      using pos by (simp add: fd nth_append)
    moreover have "fl ! (length fl - 1) \<in> set fl" using pos by simp
    ultimately have flag: "(s ! (length fl - 1) = 10) = False" using fl_nn by auto
    have "re_sub ?m repl bol s = repl (drop (length marker) fl) @ re_sub ?m repl False dw"
      using unf by (simp only: s_def [symmetric] dr flag)
    also have "re_sub ?m repl False dw =
        (case dw of [] \<Rightarrow> [] | x # r \<Rightarrow> 10 # re_sub ?m repl True r)"
      using dwc by (subst re_sub_not_bol) auto
    finally show ?thesis using True by (simp add: convert_line_def)
  next
    case False
    then have m: "?m bol (c # cs) = None" using meq unfolding s_def by simp
    have step: "re_sub ?m repl bol s = c # re_sub ?m repl (c = 10) cs"
      by (simp add: s_def m)
    show ?thesis
    proof (cases "c = 10")
      case True
      then have "fl = []" "dw = 10 # cs" by (simp_all add: fl_def dw_def s_def)
      then show ?thesis using step True assms(1) by (simp add: convert_line_def)
    next
      case nn: False
      then have f: "fl = c # takeWhile not_nl cs" and d: "dw = dropWhile not_nl cs"
        by (simp_all add: fl_def dw_def s_def)
      have "(if bol then convert_line marker repl fl else fl) = fl"
        using False by (auto simp: convert_line_def)
      then show ?thesis using step nn Cons.IH [of False] by (simp add: f d)
    qed
  qed
  then show ?case by (simp only: s_def fl_def dw_def)
qed

lemma re_sub_lines:
  assumes "marker \<noteq> []" "10 \<notin> set marker"
  shows "re_sub (match_line marker) repl True s =
           join [10] (map (convert_line marker repl) (split_nl s))"
proof (induction s rule: length_induct)
  case (1 s)
  show ?case
  proof (cases "dropWhile not_nl s")
    case Nil
    show ?thesis
      by (simp add: re_sub_line_step [OF assms, of repl True s] split_nl_unfold [of s] Nil)
  next
    case (Cons x r)
    have "length (dropWhile not_nl s) \<le> length s" by (rule length_dropWhile_le)
    then have "length r < length s" by (simp add: Cons)
    with 1 have ih: "re_sub (match_line marker) repl True r =
        join [10] (map (convert_line marker repl) (split_nl r))" by blast
    have ne: "map (convert_line marker repl) (split_nl r) \<noteq> []" by simp
    show ?thesis
      by (simp add: re_sub_line_step [OF assms, of repl True s] split_nl_unfold [of s] join_Cons
          Cons ih ne)
  qed
qed

lemma join_split_nl: "join [10] (split_nl s) = s"
proof (induction s rule: length_induct)
  case (1 s)
  have td: "takeWhile not_nl s @ dropWhile not_nl s = s" by simp
  show ?case
  proof (cases "dropWhile not_nl s")
    case Nil
    have "takeWhile not_nl s = s" using td by (simp only: Nil append_Nil2)
    then show ?thesis by (simp add: split_nl_unfold [of s] Nil)
  next
    case (Cons x r)
    have x: "x = 10" using dropWhile_not_nl_cases [of s] by (simp add: Cons)
    have "length (dropWhile not_nl s) \<le> length s" by (rule length_dropWhile_le)
    then have "length r < length s" by (simp add: Cons)
    with 1 have ih: "join [10] (split_nl r) = r" by blast
    have "join [10] (split_nl s) = takeWhile not_nl s @ 10 # r"
      by (simp add: split_nl_unfold [of s] join_Cons Cons ih)
    also have "\<dots> = takeWhile not_nl s @ dropWhile not_nl s" by (simp only: Cons x)
    finally show ?thesis by (simp only: td)
  qed
qed

lemma convert_line_marker_only: "convert_line marker repl marker = marker"
  by (simp add: convert_line_def)

lemma marker_only_kept:
  assumes "marker \<noteq> []" "10 \<notin> set marker"
    and "split_nl s = before @ marker # after"
  shows "re_sub (match_line marker) repl True s =
           join [10] (map (convert_line marker repl) before @ marker #
                      map (convert_line marker repl) after)"
  by (simp add: re_sub_lines [OF assms(1,2)] assms(3) convert_line_marker_only)

lemma marker_only_buffered:
  "para_step (ps, cur) (asc ''# '') = (ps, cur @ [asc ''#''])"
  "para_step (ps, cur) (asc ''## '') = (ps, cur @ [asc ''##''])"
  "para_step (ps, cur) (asc ''### '') = (ps, cur @ [asc ''###''])"
  "para_step (ps, cur) (asc ''- '') = (ps, cur @ [asc ''-''])"
  by (simp_all add: asc_def strip_def isspace_def)

lemma marker_only_pages:
  "html_body (asc ''# '') = asc ''<p>#</p>''"
  "html_body (asc ''## '') = asc ''<p>##</p>''"
  "html_body (asc ''### '') = asc ''<p>###</p>''"
  "html_body (asc ''- '') = asc ''<p>-</p>''"
  by (simp_all add: eval_defs)

text \<open>
  C10: the patterns ask for at least one character behind the marker. In any text, a
  line that is exactly \<open># \<close>, \<open>## \<close>, \<open>### \<close> or \<open>- \<close> is left as it is by the
  substitution for that marker, while the lines around it are converted as usual. The
  paragraph loop then appends such a line, stripped, to the paragraph buffer, and a text
  that consists of this line alone becomes a paragraph.
\<close>

theorem marker_only_line_unchanged:
  "(split_nl s = before @ asc ''# '' # after \<longrightarrow>
      convert_h1 s =
        join [10] (map (convert_line (asc ''# '') (template (asc ''<h1>'') (asc ''</h1>''))) before @
                   asc ''# '' #
                   map (convert_line (asc ''# '') (template (asc ''<h1>'') (asc ''</h1>''))) after)) \<and>
   (split_nl s = before @ asc ''## '' # after \<longrightarrow>
      convert_h2 s =
        join [10] (map (convert_line (asc ''## '') (template (asc ''<h2>'') (asc ''</h2>''))) before @
                   asc ''## '' #
                   map (convert_line (asc ''## '') (template (asc ''<h2>'') (asc ''</h2>''))) after)) \<and>
   (split_nl s = before @ asc ''### '' # after \<longrightarrow>
      convert_h3 s =
        join [10] (map (convert_line (asc ''### '') (template (asc ''<h3>'') (asc ''</h3>''))) before @
                   asc ''### '' #
                   map (convert_line (asc ''### '') (template (asc ''<h3>'') (asc ''</h3>''))) after)) \<and>
   (split_nl s = before @ asc ''- '' # after \<longrightarrow>
      convert_li s =
        join [10] (map (convert_line (asc ''- '') (template (asc ''<li>'') (asc ''</li>''))) before @
                   asc ''- '' #
                   map (convert_line (asc ''- '') (template (asc ''<li>'') (asc ''</li>''))) after)) \<and>
   para_step (ps, cur) (asc ''# '') = (ps, cur @ [asc ''#'']) \<and>
   para_step (ps, cur) (asc ''## '') = (ps, cur @ [asc ''##'']) \<and>
   para_step (ps, cur) (asc ''### '') = (ps, cur @ [asc ''###'']) \<and>
   para_step (ps, cur) (asc ''- '') = (ps, cur @ [asc ''-'']) \<and>
   html_body (asc ''# '') = asc ''<p>#</p>'' \<and>
   html_body (asc ''## '') = asc ''<p>##</p>'' \<and>
   html_body (asc ''### '') = asc ''<p>###</p>'' \<and>
   html_body (asc ''- '') = asc ''<p>-</p>''"
proof -
  have m: "asc ''# '' \<noteq> []" "10 \<notin> set (asc ''# '')" "asc ''## '' \<noteq> []" "10 \<notin> set (asc ''## '')"
    "asc ''### '' \<noteq> []" "10 \<notin> set (asc ''### '')" "asc ''- '' \<noteq> []" "10 \<notin> set (asc ''- '')"
    by (simp_all add: asc_def)
  show ?thesis
    unfolding convert_h1_def convert_h2_def convert_h3_def convert_li_def
    by (intro conjI impI marker_only_kept m marker_only_buffered marker_only_pages)
qed

theorem marker_only_line_unchanged_witness:
  "split_nl (asc ''x\<newline># \<newline># y'') = [asc ''x''] @ asc ''# '' # [asc ''# y''] \<and>
   convert_h1 (asc ''x\<newline># \<newline># y'') = asc ''x\<newline># \<newline><h1>y</h1>''"
proof -
  have h: "split_nl (asc ''x\<newline># \<newline># y'') = [asc ''x''] @ asc ''# '' # [asc ''# y'']"
    by (simp add: asc_def)
  from marker_only_line_unchanged [of "asc ''x\<newline># \<newline># y''" "[asc ''x'']" "[asc ''# y'']"] h
  have "convert_h1 (asc ''x\<newline># \<newline># y'') =
        join [10] (map (convert_line (asc ''# '') (template (asc ''<h1>'') (asc ''</h1>''))) [asc ''x''] @
                   asc ''# '' #
                   map (convert_line (asc ''# '') (template (asc ''<h1>'') (asc ''</h1>''))) [asc ''# y''])"
    by blast
  also have "\<dots> = asc ''x\<newline># \<newline><h1>y</h1>''"
    by (simp add: asc_def convert_line_def template_def)
  finally show ?thesis using h by blast
qed

section \<open>Text without markdown\<close>

lemma line_runs_split:
  "line_runs ls =
     (if takeWhile not_blank ls \<noteq> [] then [takeWhile not_blank ls] else []) @
     line_runs (dropWhile not_blank ls)"
  by (cases ls) simp_all

lemma plain_loop:
  assumes "\<forall>l \<in> set ls. \<not> prefix (asc ''<'') (strip l)"
  shows "(case foldl para_step (ps, cur) ls of (paragraphs, current_para) \<Rightarrow>
            flush paragraphs current_para) =
         ps @ (if cur @ map strip (takeWhile not_blank ls) \<noteq> []
               then [para_tag (cur @ map strip (takeWhile not_blank ls))] else []) @
         map (\<lambda>run. para_tag (map strip run)) (line_runs (dropWhile not_blank ls))"
  using assms
proof (induction ls arbitrary: ps cur)
  case Nil
  show ?case by (simp add: flush_def)
next
  case (Cons l ls)
  from Cons.prems have nl: "\<not> prefix (asc ''<'') (strip l)"
    and rest: "\<forall>l \<in> set ls. \<not> prefix (asc ''<'') (strip l)" by simp_all
  show ?case
  proof (cases "strip l = []")
    case True
    have step: "para_step (ps, cur) l = (flush ps cur, [])" using True by simp
    have "line_runs (l # ls) = line_runs ls" using True by simp
    also have "\<dots> = (if takeWhile not_blank ls \<noteq> [] then [takeWhile not_blank ls] else []) @
        line_runs (dropWhile not_blank ls)" by (rule line_runs_split)
    finally have lr: "line_runs (l # ls) =
        (if takeWhile not_blank ls \<noteq> [] then [takeWhile not_blank ls] else []) @
        line_runs (dropWhile not_blank ls)" .
    have tw: "takeWhile not_blank (l # ls) = []" "dropWhile not_blank (l # ls) = l # ls"
      using True by simp_all
    show ?thesis
      unfolding foldl_Cons step Cons.IH [OF rest] tw lr
      by (simp add: flush_def)
  next
    case False
    have step: "para_step (ps, cur) l = (ps, cur @ [strip l])" using False nl by simp
    have tw: "takeWhile not_blank (l # ls) = l # takeWhile not_blank ls"
      "dropWhile not_blank (l # ls) = dropWhile not_blank ls"
      using False by simp_all
    show ?thesis
      unfolding foldl_Cons step Cons.IH [OF rest] tw
      by simp
  qed
qed

lemma convert_paragraphs_plain:
  assumes "\<forall>l \<in> set ls. \<not> prefix (asc ''<'') (strip l)"
  shows "convert_paragraphs ls = map (\<lambda>run. para_tag (map strip run)) (line_runs ls)"
proof -
  have "convert_paragraphs ls =
      (if map strip (takeWhile not_blank ls) \<noteq> []
       then [para_tag (map strip (takeWhile not_blank ls))] else []) @
      map (\<lambda>run. para_tag (map strip run)) (line_runs (dropWhile not_blank ls))"
    unfolding convert_paragraphs_def using plain_loop [OF assms, of "[]" "[]"] by simp
  also have "\<dots> = map (\<lambda>run. para_tag (map strip run))
      ((if takeWhile not_blank ls \<noteq> [] then [takeWhile not_blank ls] else []) @
       line_runs (dropWhile not_blank ls))" by simp
  also have "\<dots> = map (\<lambda>run. para_tag (map strip run)) (line_runs ls)"
    by (simp only: line_runs_split [symmetric])
  finally show ?thesis .
qed

lemma line_sub_identity:
  assumes "marker \<noteq> []" "10 \<notin> set marker"
    and "\<forall>l \<in> set (split_nl s). \<not> prefix marker l"
  shows "re_sub (match_line marker) repl True s = s"
proof -
  have "map (convert_line marker repl) (split_nl s) = split_nl s"
    using assms(3) by (simp add: convert_line_def map_idI)
  then show ?thesis by (simp add: re_sub_lines [OF assms(1,2)] join_split_nl)
qed

lemma span_sub_identity:
  assumes "delim \<noteq> []" "hd delim \<notin> set s"
  shows "re_sub (match_span delim) repl bol s = s"
proof (rule re_sub_no_match)
  fix b t assume suf: "suffix t s"
  have "\<not> prefix delim t"
  proof
    assume "prefix delim t"
    then obtain r where "t = delim @ r" by (auto simp: prefix_def)
    with assms(1) have "hd delim \<in> set t" by (cases delim) auto
    with suf have "hd delim \<in> set s" by (auto simp: suffix_def)
    with assms(2) show False by contradiction
  qed
  then show "match_span delim b t = None" by (simp add: match_span_def)
qed

lemma li_pair_suffix: "suffix t s \<Longrightarrow> li_pair t \<Longrightarrow> li_pair s"
proof (induction s)
  case Nil
  then show ?case by simp
next
  case (Cons c cs)
  from Cons.prems(1) have "t = c # cs \<or> suffix t cs" by (simp add: suffix_Cons)
  then show ?case
  proof
    assume "t = c # cs"
    with Cons.prems(2) show ?thesis by simp
  next
    assume "suffix t cs"
    with Cons.IH Cons.prems(2) show ?thesis by simp
  qed
qed

lemma wrap_ul_identity:
  assumes "\<not> li_pair s"
  shows "wrap_ul s = s"
  unfolding wrap_ul_def
proof (rule re_sub_no_match)
  fix b t assume suf: "suffix t s"
  have nt: "\<not> li_pair t" using assms suf li_pair_suffix by blast
  show "match_li_run b t = None"
  proof (cases "prefix (asc ''<li>'') t")
    case False
    then show ?thesis by (simp add: match_li_run_def)
  next
    case True
    then obtain c cs where t: "t = c # cs" by (cases t) (auto simp: asc_def)
    with nt True have "\<not> sublist (asc ''</li>'') (drop 4 t)" by auto
    then have "dotall_star_then (asc ''</li>'') (drop 4 t) = None" by (simp add: dotall_none)
    then show ?thesis by (simp add: match_li_run_def)
  qed
qed

lemma asc_nl: "asc ''\<newline>'' = [10]"
  by (simp add: asc_def)

lemma marker_facts:
  "asc ''# '' \<noteq> []" "10 \<notin> set (asc ''# '')" "asc ''## '' \<noteq> []" "10 \<notin> set (asc ''## '')"
  "asc ''### '' \<noteq> []" "10 \<notin> set (asc ''### '')" "asc ''- '' \<noteq> []" "10 \<notin> set (asc ''- '')"
  "asc ''**'' \<noteq> []" "hd (asc ''**'') = 42" "asc ''*'' \<noteq> []" "hd (asc ''*'') = 42"
  by (simp_all add: asc_def)

lemma plain_text_body:
  assumes "no_markdown s" "\<not> li_pair s"
  shows "html_body s = plain_body s"
proof -
  from assms(1) have lines: "\<forall>l \<in> set (split_nl s).
      \<not> prefix (asc ''# '') l \<and> \<not> prefix (asc ''## '') l \<and> \<not> prefix (asc ''### '') l \<and>
      \<not> prefix (asc ''- '') l \<and> \<not> prefix (asc ''<'') (strip l)"
    and star: "42 \<notin> set s"
    by (simp_all add: no_markdown_def list_all_iff)
  have h1: "convert_h1 s = s" unfolding convert_h1_def
    using lines by (intro line_sub_identity marker_facts) simp
  have h2: "convert_h2 s = s" unfolding convert_h2_def
    using lines by (intro line_sub_identity marker_facts) simp
  have h3: "convert_h3 s = s" unfolding convert_h3_def
    using lines by (intro line_sub_identity marker_facts) simp
  have b: "convert_bold s = s" unfolding convert_bold_def
    using star by (intro span_sub_identity) (simp_all add: marker_facts)
  have i: "convert_italic s = s" unfolding convert_italic_def
    using star by (intro span_sub_identity) (simp_all add: marker_facts)
  have li: "convert_li s = s" unfolding convert_li_def
    using lines by (intro line_sub_identity marker_facts) simp
  have ul: "wrap_ul s = s" using assms(2) by (rule wrap_ul_identity)
  have "\<forall>l \<in> set (split_nl s). \<not> prefix (asc ''<'') (strip l)" using lines by simp
  then have "convert_paragraphs (split_nl s) =
      map (\<lambda>run. para_tag (map strip run)) (line_runs (split_nl s))"
    by (rule convert_paragraphs_plain)
  then show ?thesis
    by (simp add: html_body_def h1 h2 h3 b i li ul plain_body_def para_tag_def asc_nl)
qed

text \<open>
  C3, as stated, fails: the list-wrapping pattern is not anchored to lines, so a list
  item written inside a line of plain text is wrapped in an unordered-list tag. The text
  \<open>a <li>x</li> b\<close> has no markdown syntax in the sense of the claim, and the paragraph
  the claim expects does not occur in the page.
\<close>

theorem inline_list_item_cex:
  "no_markdown (asc ''a <li>x</li> b'') \<and>
   spec_plain_body (asc ''a <li>x</li> b'') = asc ''<p>a <li>x</li> b</p>'' \<and>
   markdown_to_html_simple (asc ''a <li>x</li> b'') (asc ''T'') =
     page_head (asc ''T'') @ asc ''<p>a <ul><li>x</li></ul> b</p>'' @ page_foot \<and>
   \<not> sublist (spec_plain_body (asc ''a <li>x</li> b''))
        (markdown_to_html_simple (asc ''a <li>x</li> b'') (asc ''T''))"
proof -
  let ?s = "asc ''a <li>x</li> b''"
  have a: "no_markdown ?s"
    by (simp add: no_markdown_def asc_def strip_def isspace_def)
  have b: "spec_plain_body ?s = asc ''<p>a <li>x</li> b</p>''"
    by (simp add: spec_plain_body_def asc_def strip_def isspace_def)
  have c: "html_body ?s = asc ''<p>a <ul><li>x</li></ul> b</p>''"
    by (simp add: eval_defs)
  have d: "markdown_to_html_simple ?s (asc ''T'') =
      page_head (asc ''T'') @ asc ''<p>a <ul><li>x</li></ul> b</p>'' @ page_foot"
    by (simp only: markdown_to_html_simple_def c)
  have e: "\<not> sublist (asc ''<p>a <li>x</li> b</p>'')
      (page_head (asc ''T'') @ asc ''<p>a <ul><li>x</li></ul> b</p>'' @ page_foot)"
    by (simp add: page_head_def page_foot_def asc_def sublist_Cons_right)
  from a b d e show ?thesis by (simp only: simp_thms)
qed

text \<open>
  C3, amended: for a text with no markdown syntax (no line starting with \<open># \<close>,
  \<open>## \<close>, \<open>### \<close> or \<open>- \<close>, no asterisk, no line whose first non-blank character is
  \<open><\<close>) and in which no \<open><li>\<close> is followed by a \<open></li>\<close>, the page is the shell
  around the paragraphs of the text: each maximal run of consecutive non-blank lines,
  every line stripped of leading and trailing whitespace, joined by single spaces and
  wrapped in one paragraph tag, the paragraphs separated by line feeds.
\<close>

theorem plain_text_in_paragraphs:
  assumes "no_markdown s" "\<not> li_pair s"
  shows "markdown_to_html_simple s title = page_head title @ plain_body s @ page_foot"
  by (simp add: markdown_to_html_simple_def plain_text_body [OF assms])

theorem plain_text_in_paragraphs_witness:
  "no_markdown (asc '' one\<newline>two \<newline>\<newline>three'') \<and>
   \<not> li_pair (asc '' one\<newline>two \<newline>\<newline>three'') \<and>
   markdown_to_html_simple (asc '' one\<newline>two \<newline>\<newline>three'') (asc ''T'') =
     page_head (asc ''T'') @ asc ''<p>one two</p>\<newline><p>three</p>'' @ page_foot"
proof -
  let ?s = "asc '' one\<newline>two \<newline>\<newline>three''"
  have a: "no_markdown ?s"
    by (simp add: no_markdown_def asc_def strip_def isspace_def)
  have b: "\<not> li_pair ?s" by (simp add: asc_def)
  have c: "plain_body ?s = asc ''<p>one two</p>\<newline><p>three</p>''"
    by (simp add: plain_body_def asc_def strip_def isspace_def)
  from plain_text_in_paragraphs [OF a b, of "asc ''T''"] a b show ?thesis
    by (simp only: c simp_thms)
qed

section \<open>Totality\<close>

lemma valid_str_set: "valid_str s \<longleftrightarrow> set s \<subseteq> {c. c < 1114112}"
  by (auto simp: valid_str_def list_all_iff)

lemma asc_small: "set (asc x) \<subseteq> {c. c < 1114112}"
proof
  fix c assume "c \<in> set (asc x)"
  then obtain d where "c = of_char d" by (auto simp: asc_def)
  moreover have "(of_char d :: nat) mod 256 < 256" by simp
  ultimately have "c < 256" by simp
  then show "c \<in> {c. c < 1114112}" by simp
qed

lemma re_sub_subset:
  assumes step: "\<And>b t g n. m b t = Some (g, n) \<Longrightarrow> set t \<subseteq> A \<Longrightarrow> set (repl g) \<subseteq> A"
  shows "set s \<subseteq> A \<Longrightarrow> set (re_sub m repl bol s) \<subseteq> A"
proof (induction s arbitrary: bol rule: length_induct)
  case (1 s)
  show ?case
  proof (cases s)
    case Nil
    then show ?thesis by simp
  next
    case (Cons c cs)
    have sub_cs: "set cs \<subseteq> A" and cA: "c \<in> A" using "1.prems" Cons by auto
    have ih_cs: "set (re_sub m repl b cs) \<subseteq> A" for b
      using "1.IH" sub_cs Cons by simp
    show ?thesis
    proof (cases "m bol (c # cs)")
      case None
      then show ?thesis using ih_cs cA by (simp add: Cons)
    next
      case (Some a)
      obtain g n where a: "a = (g, n)" by (cases a)
      show ?thesis
      proof (cases "0 < n")
        case False
        then show ?thesis using ih_cs cA Some a by (simp add: Cons)
      next
        case True
        have "set (drop n (c # cs)) \<subseteq> set (c # cs)" by (rule set_drop_subset)
        then have d: "set (drop n (c # cs)) \<subseteq> A" using "1.prems" Cons by blast
        have "length (drop n (c # cs)) < length s" using True Cons by simp
        then have "set (re_sub m repl b (drop n (c # cs))) \<subseteq> A" for b
          using "1.IH" d by blast
        moreover have "set (repl g) \<subseteq> A"
          using step [of bol "c # cs" g n] Some a "1.prems" Cons by simp
        ultimately show ?thesis using True Some a by (simp add: Cons)
      qed
    qed
  qed
qed

lemma match_line_group: "match_line marker b t = Some (g, n) \<Longrightarrow> set g \<subseteq> set t"
  by (auto simp: match_line_def dot_plus_eol_eq split: if_splits option.splits
      dest!: set_takeWhileD in_set_dropD)

lemma dot_plus_lazy_group: "dot_plus_lazy close u = Some (g, rest) \<Longrightarrow> set g \<subseteq> set u"
  by (induction u arbitrary: g rest) (auto split: if_splits option.splits)

lemma match_span_group: "match_span delim b t = Some (g, n) \<Longrightarrow> set g \<subseteq> set t"
  by (auto simp: match_span_def split: if_splits option.splits
      dest!: dot_plus_lazy_group in_set_dropD)

lemma match_li_run_group:
  assumes "match_li_run b t = Some (g, n)" "set t \<subseteq> {c. c < 1114112}"
  shows "set g \<subseteq> {c. c < 1114112}"
proof -
  from assms(1) obtain g' rest where d: "dotall_star_then (asc ''</li>'') (drop 4 t) = Some (g', rest)"
    and g: "g = asc ''<li>'' @ g' @ asc ''</li>''"
    by (auto simp: match_li_run_def split: if_splits option.splits)
  from dotall_some [OF d] have "set g' \<subseteq> set (drop 4 t)" by auto
  also have "\<dots> \<subseteq> set t" by (rule set_drop_subset)
  finally have "set g' \<subseteq> {c. c < 1114112}" using assms(2) by blast
  then show ?thesis using asc_small [of "''<li>''"] asc_small [of "''</li>''"] by (simp add: g)
qed

lemma template_subset:
  "set g \<subseteq> {c. c < 1114112} \<Longrightarrow> set (template (asc p) (asc q) g) \<subseteq> {c. c < 1114112}"
  using asc_small [of p] asc_small [of q] by (simp add: template_def)

lemma line_sub_valid:
  assumes "set s \<subseteq> {c. c < 1114112}"
  shows "set (re_sub (match_line marker) (template (asc p) (asc q)) bol s) \<subseteq> {c. c < 1114112}"
proof (rule re_sub_subset [OF _ assms])
  fix b t g n
  assume m: "match_line marker b t = Some (g, n)" and t: "set t \<subseteq> {c. c < 1114112}"
  from match_line_group [OF m] t have "set g \<subseteq> {c. c < 1114112}" by blast
  then show "set (template (asc p) (asc q) g) \<subseteq> {c. c < 1114112}" by (rule template_subset)
qed

lemma span_sub_valid:
  assumes "set s \<subseteq> {c. c < 1114112}"
  shows "set (re_sub (match_span delim) (template (asc p) (asc q)) bol s) \<subseteq> {c. c < 1114112}"
proof (rule re_sub_subset [OF _ assms])
  fix b t g n
  assume m: "match_span delim b t = Some (g, n)" and t: "set t \<subseteq> {c. c < 1114112}"
  from match_span_group [OF m] t have "set g \<subseteq> {c. c < 1114112}" by blast
  then show "set (template (asc p) (asc q) g) \<subseteq> {c. c < 1114112}" by (rule template_subset)
qed

lemma li_run_sub_valid:
  assumes "set s \<subseteq> {c. c < 1114112}"
  shows "set (re_sub match_li_run (template (asc p) (asc q)) bol s) \<subseteq> {c. c < 1114112}"
proof (rule re_sub_subset [OF _ assms])
  fix b t g n
  assume m: "match_li_run b t = Some (g, n)" and t: "set t \<subseteq> {c. c < 1114112}"
  from match_li_run_group [OF m t]
  show "set (template (asc p) (asc q) g) \<subseteq> {c. c < 1114112}" by (rule template_subset)
qed

lemma split_nl_subset: "l \<in> set (split_nl s) \<Longrightarrow> set l \<subseteq> set s"
proof (induction s arbitrary: l)
  case Nil
  then show ?case by simp
next
  case (Cons c cs)
  obtain h t where e: "split_nl cs = h # t" by (cases "split_nl cs") auto
  show ?case
  proof (cases "c = 10")
    case True
    with Cons show ?thesis by auto
  next
    case False
    with Cons.prems e have "l = c # h \<or> l \<in> set t" by simp
    then show ?thesis
    proof
      assume "l = c # h"
      moreover have "set h \<subseteq> set cs" using Cons.IH [of h] e by simp
      ultimately show ?thesis by auto
    next
      assume "l \<in> set t"
      then have "set l \<subseteq> set cs" using Cons.IH [of l] e by simp
      then show ?thesis by auto
    qed
  qed
qed

lemma strip_subset: "set (strip l) \<subseteq> set l"
proof
  fix x assume "x \<in> set (strip l)"
  then have "x \<in> set (dropWhile isspace (rev (dropWhile isspace l)))"
    by (simp add: strip_def)
  then have "x \<in> set (rev (dropWhile isspace l))" by (rule set_dropWhileD)
  then have "x \<in> set (dropWhile isspace l)" by simp
  then show "x \<in> set l" by (rule set_dropWhileD)
qed

lemma join_subset:
  "set sep \<subseteq> A \<Longrightarrow> (\<And>x. x \<in> set xs \<Longrightarrow> set x \<subseteq> A) \<Longrightarrow> set (join sep xs) \<subseteq> A"
  by (induction sep xs rule: join.induct) simp_all

lemma para_tag_valid:
  assumes "\<And>x. x \<in> set cur \<Longrightarrow> set x \<subseteq> {c. c < 1114112}"
  shows "set (para_tag cur) \<subseteq> {c. c < 1114112}"
proof -
  have "set (join (asc '' '') cur) \<subseteq> {c. c < 1114112}"
    using asc_small assms by (rule join_subset)
  then show ?thesis
    using asc_small [of "''<p>''"] asc_small [of "''</p>''"] by (simp add: para_tag_def)
qed

lemma flush_valid:
  assumes "valid_state (ps, cur)"
  shows "list_all valid_str (flush ps cur)"
proof -
  from assms have "\<And>x. x \<in> set cur \<Longrightarrow> set x \<subseteq> {c. c < 1114112}"
    by (simp add: valid_state_def list_all_iff valid_str_set)
  then have "valid_str (para_tag cur)" unfolding valid_str_set by (rule para_tag_valid)
  with assms show ?thesis by (simp add: flush_def valid_state_def)
qed

lemma para_step_valid:
  assumes "valid_state st" "valid_str line"
  shows "valid_state (para_step st line)"
proof -
  obtain ps cur where st: "st = (ps, cur)" by (cases st)
  have f: "list_all valid_str (flush ps cur)" using assms(1) st by (simp add: flush_valid)
  have "set (strip line) \<subseteq> {c. c < 1114112}"
    using strip_subset [of line] assms(2) unfolding valid_str_set by blast
  then have s: "valid_str (strip line)" by (simp add: valid_str_set)
  show ?thesis using assms f s by (simp add: st valid_state_def)
qed

lemma loop_valid:
  "valid_state st \<Longrightarrow> list_all valid_str ls \<Longrightarrow> valid_state (foldl para_step st ls)"
  by (induction ls arbitrary: st) (simp_all add: para_step_valid)

lemma convert_paragraphs_valid:
  assumes "list_all valid_str ls"
  shows "list_all valid_str (convert_paragraphs ls)"
proof -
  have "valid_state ([], [])" by (simp add: valid_state_def)
  then have v: "valid_state (foldl para_step ([], []) ls)" using assms by (rule loop_valid)
  obtain ps cur where e: "foldl para_step ([], []) ls = (ps, cur)"
    by (cases "foldl para_step ([], []) ls")
  with v show ?thesis by (simp add: convert_paragraphs_def flush_valid)
qed

lemma html_body_valid:
  assumes "valid_str s"
  shows "valid_str (html_body s)"
proof -
  let ?t = "wrap_ul (convert_li (convert_italic (convert_bold
                (convert_h3 (convert_h2 (convert_h1 s))))))"
  have "set ?t \<subseteq> {c. c < 1114112}"
    unfolding wrap_ul_def convert_li_def convert_italic_def convert_bold_def convert_h3_def
      convert_h2_def convert_h1_def
    using assms [unfolded valid_str_set]
    by (intro li_run_sub_valid line_sub_valid span_sub_valid)
  then have "list_all valid_str (split_nl ?t)"
    using split_nl_subset [of _ ?t] unfolding list_all_iff valid_str_set by blast
  then have "list_all valid_str (convert_paragraphs (split_nl ?t))"
    by (rule convert_paragraphs_valid)
  then have "set (join (asc ''\<newline>'') (convert_paragraphs (split_nl ?t))) \<subseteq> {c. c < 1114112}"
    using asc_small by (intro join_subset) (simp_all add: list_all_iff valid_str_set)
  then show ?thesis by (simp add: html_body_def valid_str_set)
qed

lemma page_head_valid: "valid_str title \<Longrightarrow> valid_str (page_head title)"
  unfolding valid_str_set page_head_def using asc_small by (simp add: le_sup_iff)

lemma page_foot_valid: "valid_str page_foot"
  unfolding valid_str_set page_foot_def using asc_small by (simp add: le_sup_iff)

text \<open>
  C5: the converter is a total function. The source has no raise and no failing call on
  strings, so the model has no error value; its recursions are either structural or
  come with a termination proof (\<open>re_sub\<close>, \<open>str_replace\<close>, \<open>line_runs\<close>), so a result
  exists for every content and title. The result is a string again: all its elements
  are code points when those of the content and the title are. For the empty content
  the page is the shell with an empty body.
\<close>

theorem transform_total:
  assumes "valid_str md_content" "valid_str title"
  shows "valid_str (markdown_to_html_simple md_content title) \<and>
         markdown_to_html_simple [] title = page_head title @ page_foot"
proof
  have "valid_str (page_head title)" "valid_str (html_body md_content)" "valid_str page_foot"
    using assms by (simp_all add: page_head_valid html_body_valid page_foot_valid)
  then show "valid_str (markdown_to_html_simple md_content title)"
    by (simp add: markdown_to_html_simple_def valid_str_def)
  show "markdown_to_html_simple [] title = page_head title @ page_foot"
    by (simp add: markdown_to_html_simple_def eval_defs)
qed

theorem transform_total_witness:
  "valid_str (asc ''# Hi'') \<and> valid_str (asc ''T'') \<and>
   valid_str (markdown_to_html_simple (asc ''# Hi'') (asc ''T'')) \<and>
   markdown_to_html_simple [] (asc ''T'') = page_head (asc ''T'') @ page_foot"
proof -
  have a: "valid_str (asc ''# Hi'')" and b: "valid_str (asc ''T'')"
    by (simp_all add: valid_str_def asc_def)
  from transform_total [OF a b] a b show ?thesis by blast
qed

end
